theory Spec2Isabelle
  imports Complex_Main "HOL-Library.FSet"
begin

section \<open>PageRank: the transition model and the two estimators of pagerank.py\<close>

text \<open>
  The embedding follows \<^verbatim>\<open>pagerank.py\<close> function by function.

  \<^item> A Python \<^verbatim>\<open>dict\<close> is an association list in insertion order; its keys are
    distinct (a well-formedness condition of the input corpus, kept by every dict the
    code builds itself).
  \<^item> A Python \<^verbatim>\<open>set\<close> of pages is a finite set (\<open>fset\<close>); \<^verbatim>\<open>len\<close> is \<open>fcard\<close>.
  \<^item> A Python \<^verbatim>\<open>float\<close> is a real number: arithmetic is exact here, so a tolerance of
    the specification that only absorbs rounding becomes an equation.
  \<^item> An exception is a value \<open>Inl e\<close> of the result type \<open>error + 'a\<close>.
  \<^item> The process-wide random generator is an explicit parameter with its own state.
  \<^item> The \<^verbatim>\<open>while\<close> loop of \<^verbatim>\<open>iterate_pagerank\<close> has no pass bound in the source;
    it is a partial function, and \<open>None\<close> stands for a loop that never ends.
\<close>

subsection \<open>Data model\<close>

type_synonym page = string

type_synonym 'v dict = "(page \<times> 'v) list"

type_synonym corpus = "page fset dict"

type_synonym distribution = "real dict"

datatype error = KeyError | IndexError | ZeroDivisionError | ValueError

text \<open>\<^verbatim>\<open>d.keys()\<close>, \<^verbatim>\<open>d[k]\<close> (raises \<^verbatim>\<open>KeyError\<close> on a missing key) and \<^verbatim>\<open>d[k] = v\<close>
  (overwrites in place, or appends a new key at the end).\<close>

definition dict_keys :: "'v dict \<Rightarrow> page list" where
  "dict_keys m = map fst m"

definition getitem :: "'v dict \<Rightarrow> page \<Rightarrow> error + 'v" where
  "getitem m k = (case map_of m k of None \<Rightarrow> Inl KeyError | Some v \<Rightarrow> Inr v)"

fun setitem :: "'v dict \<Rightarrow> page \<Rightarrow> 'v \<Rightarrow> 'v dict" where
  "setitem [] k v = [(k, v)]"
| "setitem ((k', v') # m) k v =
     (if k' = k then (k, v) # m else (k', v') # setitem m k v)"

text \<open>
  \<^verbatim>\<open>crawl\<close> keeps only links to pages of the corpus (\<^verbatim>\<open>if link in pages\<close>), which is the
  invariant of the Corpus type in the specification: every linked page is itself a key.
\<close>

definition links_in_corpus :: "corpus \<Rightarrow> bool" where
  "links_in_corpus corpus \<longleftrightarrow>
     (\<forall>(k, links) \<in> set corpus. fset links \<subseteq> set (dict_keys corpus))"

text \<open>
  \<^verbatim>\<open>crawl\<close> also removes a page's links to itself (\<^verbatim>\<open>set(links) - {filename}\<close>). A page
  without links is called dangling.
\<close>

definition no_self_links :: "corpus \<Rightarrow> bool" where
  "no_self_links corpus \<longleftrightarrow> (\<forall>(k, links) \<in> set corpus. k |\<notin>| links)"

definition no_dangling :: "corpus \<Rightarrow> bool" where
  "no_dangling corpus \<longleftrightarrow> (\<forall>(k, links) \<in> set corpus. links \<noteq> {||})"

subsection \<open>\<^verbatim>\<open>transition_model\<close>\<close>

text \<open>
  The body of the loop over \<^verbatim>\<open>keys\<close>: \<^verbatim>\<open>linked_bonus\<close> starts at 0, is set to
  \<^verbatim>\<open>damping_factor/len(pages)\<close> when \<^verbatim>\<open>key in pages\<close> (so \<^verbatim>\<open>len(pages) > 0\<close> there),
  and is then overwritten by \<^verbatim>\<open>damping_factor/len(keys)\<close> when \<^verbatim>\<open>len(pages) == 0\<close>
  (inside the loop over \<^verbatim>\<open>keys\<close>, so \<^verbatim>\<open>len(keys) > 0\<close> there). Neither division can
  have a zero divisor.
\<close>

definition linked_bonus :: "page list \<Rightarrow> page fset \<Rightarrow> real \<Rightarrow> page \<Rightarrow> real" where
  "linked_bonus keys pages damping_factor key =
     (let linked_bonus = 0;
          linked_bonus = (if key |\<in>| pages then damping_factor / real (fcard pages)
                          else linked_bonus);
          linked_bonus = (if fcard pages = 0 then damping_factor / real (length keys)
                          else linked_bonus)
      in linked_bonus)"

fun transition_loop ::
  "page list \<Rightarrow> page fset \<Rightarrow> real \<Rightarrow> page list \<Rightarrow> distribution \<Rightarrow> distribution" where
  "transition_loop keys pages damping_factor [] probdis = probdis"
| "transition_loop keys pages damping_factor (key # rest) probdis =
     transition_loop keys pages damping_factor rest
       (setitem probdis key
          ((1 - damping_factor) / real (length keys)
             + linked_bonus keys pages damping_factor key))"

definition transition_model :: "corpus \<Rightarrow> page \<Rightarrow> real \<Rightarrow> error + distribution" where
  "transition_model corpus page damping_factor =
     (let keys = dict_keys corpus in
      case getitem corpus page of
        Inl e \<Rightarrow> Inl e
      | Inr pages \<Rightarrow> Inr (transition_loop keys pages damping_factor keys []))"

subsection \<open>\<^verbatim>\<open>sample_pagerank\<close>\<close>

text \<open>
  The two calls into Python's \<^verbatim>\<open>random\<close> module, with the generator state \<open>'g\<close> passed
  explicitly: \<^verbatim>\<open>random.choice(seq)\<close> and \<^verbatim>\<open>random.choices(population, weights, k=1).pop()\<close>.
  Both may raise (an empty sequence, weights that do not add up to a positive total).
\<close>

record 'g random_source =
  rand_choice :: "'g \<Rightarrow> page list \<Rightarrow> error + (page \<times> 'g)"
  rand_choices :: "'g \<Rightarrow> page list \<Rightarrow> real list \<Rightarrow> error + (page \<times> 'g)"

text \<open>What the library promises: a draw from a non-empty population (with one positive
  weight for each member, where weights are given) succeeds and returns a member.\<close>

definition random_ok :: "'g random_source \<Rightarrow> bool" where
  "random_ok R \<longleftrightarrow>
     (\<forall>g xs. xs \<noteq> [] \<longrightarrow> (\<exists>p g'. rand_choice R g xs = Inr (p, g') \<and> p \<in> set xs)) \<and>
     (\<forall>g xs ws. xs \<noteq> [] \<and> length ws = length xs \<and> (\<forall>w \<in> set ws. 0 < w) \<longrightarrow>
        (\<exists>p g'. rand_choices R g xs ws = Inr (p, g') \<and> p \<in> set xs))"

text \<open>\<^verbatim>\<open>for key in prob_dis.keys(): probs.append(prob_dis[key])\<close>\<close>

fun probs_loop :: "distribution \<Rightarrow> page list \<Rightarrow> real list \<Rightarrow> error + real list" where
  "probs_loop prob_dis [] probs = Inr probs"
| "probs_loop prob_dis (key # rest) probs =
     (case getitem prob_dis key of
        Inl e \<Rightarrow> Inl e
      | Inr v \<Rightarrow> probs_loop prob_dis rest (probs @ [v]))"

text \<open>\<^verbatim>\<open>for _ in range(n-1)\<close>: the first argument counts the passes still to run.\<close>

fun walk_loop ::
  "'g random_source \<Rightarrow> corpus \<Rightarrow> real \<Rightarrow> nat \<Rightarrow> page \<Rightarrow> page list \<Rightarrow> 'g
     \<Rightarrow> error + (page list \<times> 'g)" where
  "walk_loop R corpus damping_factor 0 cur_page pageranks_raw g = Inr (pageranks_raw, g)"
| "walk_loop R corpus damping_factor (Suc k) cur_page pageranks_raw g =
     (case transition_model corpus cur_page damping_factor of
        Inl e \<Rightarrow> Inl e
      | Inr prob_dis \<Rightarrow>
          (case probs_loop prob_dis (dict_keys prob_dis) [] of
             Inl e \<Rightarrow> Inl e
           | Inr probs \<Rightarrow>
               (case rand_choices R g (dict_keys prob_dis) probs of
                  Inl e \<Rightarrow> Inl e
                | Inr (cur_page', g') \<Rightarrow>
                    walk_loop R corpus damping_factor k cur_page'
                      (pageranks_raw @ [cur_page']) g')))"

text \<open>The recorded visits \<^verbatim>\<open>pageranks_raw\<close>, as they stand after the walk.\<close>

definition sample_visits ::
  "'g random_source \<Rightarrow> corpus \<Rightarrow> real \<Rightarrow> int \<Rightarrow> 'g \<Rightarrow> error + (page list \<times> 'g)" where
  "sample_visits R corpus damping_factor n g =
     (case rand_choice R g (dict_keys corpus) of
        Inl e \<Rightarrow> Inl e
      | Inr (cur_page, g') \<Rightarrow>
          walk_loop R corpus damping_factor (nat (n - 1)) cur_page [cur_page] g')"

text \<open>\<^verbatim>\<open>for key in corpus.keys(): pageranks[key] = pageranks_raw.count(key)/n\<close>;
  the division raises when \<^verbatim>\<open>n\<close> is 0.\<close>

fun count_loop :: "page list \<Rightarrow> int \<Rightarrow> page list \<Rightarrow> distribution \<Rightarrow> error + distribution" where
  "count_loop pageranks_raw n [] pageranks = Inr pageranks"
| "count_loop pageranks_raw n (key # rest) pageranks =
     (if n = 0 then Inl ZeroDivisionError
      else count_loop pageranks_raw n rest
             (setitem pageranks key (real (count_list pageranks_raw key) / real_of_int n)))"

definition sample_pagerank ::
  "'g random_source \<Rightarrow> corpus \<Rightarrow> real \<Rightarrow> int \<Rightarrow> 'g \<Rightarrow> error + distribution" where
  "sample_pagerank R corpus damping_factor n g =
     (case sample_visits R corpus damping_factor n g of
        Inl e \<Rightarrow> Inl e
      | Inr (pageranks_raw, g') \<Rightarrow> count_loop pageranks_raw n (dict_keys corpus) [])"

text \<open>A random source that always draws the first member of the population.\<close>

definition first_source :: "unit random_source" where
  "first_source =
     \<lparr> rand_choice = (\<lambda>g xs. case xs of [] \<Rightarrow> Inl IndexError | x # _ \<Rightarrow> Inr (x, g)),
       rand_choices = (\<lambda>g xs ws. case xs of [] \<Rightarrow> Inl IndexError | x # _ \<Rightarrow> Inr (x, g)) \<rparr>"

subsection \<open>\<^verbatim>\<open>iterate_pagerank\<close>\<close>

text \<open>\<^verbatim>\<open>for page in pages: prob_dis[page] = 1/len(pages)\<close>\<close>

fun init_loop :: "page list \<Rightarrow> page list \<Rightarrow> distribution \<Rightarrow> distribution" where
  "init_loop pages [] prob_dis = prob_dis"
| "init_loop pages (page # rest) prob_dis =
     init_loop pages rest (setitem prob_dis page (1 / real (length pages)))"

text \<open>
  What one \<^verbatim>\<open>parent\<close> adds to \<^verbatim>\<open>partial_prob\<close> in the inner loop:
  \<^verbatim>\<open>previous_prob_dis[parent]/len(corpus[parent])\<close> when \<^verbatim>\<open>page in corpus[parent]\<close>,
  \<^verbatim>\<open>1/len(pages)\<close> when \<^verbatim>\<open>len(corpus[parent]) == 0\<close>, and nothing otherwise.
\<close>

definition contribution ::
  "corpus \<Rightarrow> distribution \<Rightarrow> page list \<Rightarrow> page \<Rightarrow> page \<Rightarrow> error + real" where
  "contribution corpus previous_prob_dis pages page parent =
     (case getitem corpus parent of
        Inl e \<Rightarrow> Inl e
      | Inr links \<Rightarrow>
          if page |\<in>| links then
            (case getitem previous_prob_dis parent of
               Inl e \<Rightarrow> Inl e
             | Inr v \<Rightarrow> Inr (v / real (fcard links)))
          else if fcard links = 0 then Inr (1 / real (length pages))
          else Inr 0)"

text \<open>\<^verbatim>\<open>for parent in set(pages).difference(set([page]))\<close>, run over the list of the
  remaining parents; the order in which a Python set is visited does not change an exact sum.\<close>

fun partial_prob_loop ::
  "corpus \<Rightarrow> distribution \<Rightarrow> page list \<Rightarrow> page \<Rightarrow> page list \<Rightarrow> real \<Rightarrow> error + real" where
  "partial_prob_loop corpus previous_prob_dis pages page [] partial_prob = Inr partial_prob"
| "partial_prob_loop corpus previous_prob_dis pages page (parent # rest) partial_prob =
     (case contribution corpus previous_prob_dis pages page parent of
        Inl e \<Rightarrow> Inl e
      | Inr c \<Rightarrow>
          partial_prob_loop corpus previous_prob_dis pages page rest (partial_prob + c))"

text \<open>One pass of \<^verbatim>\<open>for page in pages\<close>: \<^verbatim>\<open>prob_dis\<close> is overwritten in place while every
  read goes to the copy \<^verbatim>\<open>previous_prob_dis\<close>; \<^verbatim>\<open>prob_dis_diff\<close> collects the changes.\<close>

fun pass_loop ::
  "corpus \<Rightarrow> real \<Rightarrow> page list \<Rightarrow> distribution \<Rightarrow> page list \<Rightarrow> distribution \<Rightarrow> real list
     \<Rightarrow> error + (distribution \<times> real list)" where
  "pass_loop corpus damping_factor pages previous_prob_dis [] prob_dis prob_dis_diff =
     Inr (prob_dis, prob_dis_diff)"
| "pass_loop corpus damping_factor pages previous_prob_dis (page # rest) prob_dis prob_dis_diff =
     (case partial_prob_loop corpus previous_prob_dis pages page
             (removeAll page (remdups pages)) 0 of
        Inl e \<Rightarrow> Inl e
      | Inr partial_prob \<Rightarrow>
          (let prob_dis' = setitem prob_dis page
                 ((1 - damping_factor) / real (length pages) + damping_factor * partial_prob)
           in case getitem previous_prob_dis page of
                Inl e \<Rightarrow> Inl e
              | Inr old \<Rightarrow>
                  (case getitem prob_dis' page of
                     Inl e \<Rightarrow> Inl e
                   | Inr new \<Rightarrow>
                       pass_loop corpus damping_factor pages previous_prob_dis rest prob_dis'
                         (prob_dis_diff @ [\<bar>old - new\<bar>]))))"

text \<open>\<^verbatim>\<open>while not(converged)\<close>: a pass, then \<^verbatim>\<open>(prob_dis_diff>0.001).any()\<close>.\<close>

partial_function (option) converge_loop ::
  "corpus \<Rightarrow> real \<Rightarrow> page list \<Rightarrow> distribution \<Rightarrow> (error + distribution) option" where
  "converge_loop corpus damping_factor pages prob_dis =
     (case pass_loop corpus damping_factor pages prob_dis pages prob_dis [] of
        Inl e \<Rightarrow> Some (Inl e)
      | Inr (prob_dis', prob_dis_diff) \<Rightarrow>
          if \<not> list_ex (\<lambda>x. x > 1 / 1000) prob_dis_diff then Some (Inr prob_dis')
          else converge_loop corpus damping_factor pages prob_dis')"

definition iterate_pagerank :: "corpus \<Rightarrow> real \<Rightarrow> (error + distribution) option" where
  "iterate_pagerank corpus damping_factor =
     (let pages = dict_keys corpus;
          prob_dis = init_loop pages pages []
      in converge_loop corpus damping_factor pages prob_dis)"

subsection \<open>Rank vectors and passes, for the analysis of \<^verbatim>\<open>iterate_pagerank\<close>\<close>

text \<open>
  The analysis of the iteration works on rank vectors, functions from pages to reals.
  \<open>links_of\<close> is \<^verbatim>\<open>corpus[p]\<close> for a page of the corpus, \<open>as_dict\<close> the dict that holds a
  rank vector on the pages, \<open>contrib\<close> and \<open>rank_update\<close> what the two loops of one pass
  compute, and \<open>ranks k\<close> the vector after \<open>k\<close> passes from the uniform start.
\<close>

definition links_of :: "corpus \<Rightarrow> page \<Rightarrow> page fset" where
  "links_of corpus p = (case map_of corpus p of None \<Rightarrow> {||} | Some links \<Rightarrow> links)"

definition as_dict :: "page list \<Rightarrow> (page \<Rightarrow> real) \<Rightarrow> distribution" where
  "as_dict pages x = map (\<lambda>p. (p, x p)) pages"

definition contrib :: "corpus \<Rightarrow> (page \<Rightarrow> real) \<Rightarrow> page \<Rightarrow> page \<Rightarrow> real" where
  "contrib corpus x page parent =
     (if page |\<in>| links_of corpus parent
      then x parent / real (fcard (links_of corpus parent))
      else if fcard (links_of corpus parent) = 0 then 1 / real (length (dict_keys corpus))
      else 0)"

definition rank_update :: "corpus \<Rightarrow> real \<Rightarrow> (page \<Rightarrow> real) \<Rightarrow> page \<Rightarrow> real" where
  "rank_update corpus d x page =
     (1 - d) / real (length (dict_keys corpus))
       + d * (\<Sum>parent \<in> set (dict_keys corpus) - {page}. contrib corpus x page parent)"

text \<open>The share of a parent's rank that goes to a page it links to, and the
  distance between two rank vectors in which a pass is a contraction.\<close>

definition link_weight :: "corpus \<Rightarrow> page \<Rightarrow> page \<Rightarrow> real" where
  "link_weight corpus page parent =
     (if page |\<in>| links_of corpus parent then 1 / real (fcard (links_of corpus parent)) else 0)"

definition l1_dist :: "page list \<Rightarrow> (page \<Rightarrow> real) \<Rightarrow> (page \<Rightarrow> real) \<Rightarrow> real" where
  "l1_dist pages x y = (\<Sum>p \<in> set pages. \<bar>x p - y p\<bar>)"

definition ranks :: "corpus \<Rightarrow> real \<Rightarrow> nat \<Rightarrow> page \<Rightarrow> real" where
  "ranks corpus d k =
     (rank_update corpus d ^^ k) (\<lambda>_. 1 / real (length (dict_keys corpus)))"

text \<open>The \<open>k+1\<close>-th pass changes no page by more than the threshold 0.001.\<close>

definition settled :: "corpus \<Rightarrow> real \<Rightarrow> nat \<Rightarrow> bool" where
  "settled corpus d k \<longleftrightarrow>
     (\<forall>p \<in> set (dict_keys corpus). \<bar>ranks corpus d k p - ranks corpus d (Suc k) p\<bar> \<le> 1 / 1000)"

text \<open>\<^verbatim>\<open>prob_dis\<close> after \<open>k\<close> runs of the body of the \<^verbatim>\<open>while\<close> loop, and the change
  \<^verbatim>\<open>abs(previous_prob_dis[page] - prob_dis[page])\<close> of one page.\<close>

fun prob_dis_after :: "corpus \<Rightarrow> real \<Rightarrow> nat \<Rightarrow> error + distribution" where
  "prob_dis_after corpus damping_factor 0 =
     (let pages = dict_keys corpus in Inr (init_loop pages pages []))"
| "prob_dis_after corpus damping_factor (Suc k) =
     (case prob_dis_after corpus damping_factor k of
        Inl e \<Rightarrow> Inl e
      | Inr prob_dis \<Rightarrow>
          (case pass_loop corpus damping_factor (dict_keys corpus) prob_dis
                  (dict_keys corpus) prob_dis [] of
             Inl e \<Rightarrow> Inl e
           | Inr (prob_dis', prob_dis_diff) \<Rightarrow> Inr prob_dis'))"

definition rank_change :: "distribution \<Rightarrow> distribution \<Rightarrow> page \<Rightarrow> error + real" where
  "rank_change previous_prob_dis prob_dis page =
     (case getitem previous_prob_dis page of
        Inl e \<Rightarrow> Inl e
      | Inr old \<Rightarrow>
          (case getitem prob_dis page of
             Inl e \<Rightarrow> Inl e
           | Inr new \<Rightarrow> Inr \<bar>old - new\<bar>))"

section \<open>Dictionaries built by the loops\<close>

lemma setitem_fresh: "k \<notin> fst ` set m \<Longrightarrow> setitem m k v = m @ [(k, v)]"
  by (induction m) auto

lemma getitem_Inr_iff:
  assumes "distinct (dict_keys m)"
  shows "getitem m k = Inr v \<longleftrightarrow> (k, v) \<in> set m"
proof -
  have "map_of m k = Some v \<longleftrightarrow> (k, v) \<in> set m"
    using assms by (simp add: dict_keys_def)
  moreover have "getitem m k = Inr v \<longleftrightarrow> map_of m k = Some v"
    by (simp add: getitem_def split: option.splits)
  ultimately show ?thesis by simp
qed

lemma getitem_KeyError_iff: "getitem m k = Inl e \<longleftrightarrow> e = KeyError \<and> k \<notin> set (dict_keys m)"
proof -
  have "getitem m k = Inl e \<longleftrightarrow> e = KeyError \<and> map_of m k = None"
    by (auto simp: getitem_def split: option.splits)
  then show ?thesis by (simp add: map_of_eq_None_iff dict_keys_def)
qed

lemma getitem_in_keys: "k \<in> set (dict_keys m) \<Longrightarrow> \<exists>v. getitem m k = Inr v"
  by (cases "getitem m k") (auto simp: getitem_KeyError_iff)

lemma getitem_map: "k \<in> set ks \<Longrightarrow> getitem (map (\<lambda>q. (q, f q)) ks) k = Inr (f k)"
  by (induction ks) (auto simp: getitem_def)

lemma dict_keys_map [simp]: "dict_keys (map (\<lambda>q. (q, f q)) ks) = ks"
  by (simp add: dict_keys_def comp_def)

lemma transition_loop_fresh:
  "distinct (map fst probdis @ ks) \<Longrightarrow>
   transition_loop keys pages d ks probdis =
     probdis @ map (\<lambda>key. (key, (1 - d) / real (length keys) + linked_bonus keys pages d key)) ks"
proof (induction ks arbitrary: probdis)
  case Nil
  then show ?case by simp
next
  case (Cons key rest)
  have fresh: "key \<notin> fst ` set probdis" using Cons.prems by auto
  have "distinct (map fst (probdis @ [(key, v)]) @ rest)" for v
    using Cons.prems by auto
  then show ?case
    by (simp add: Cons.IH setitem_fresh [OF fresh])
qed

lemma transition_model_pure:
  assumes "distinct (dict_keys corpus)" and "getitem corpus page = Inr pages"
  shows "transition_model corpus page d =
     Inr (map (\<lambda>key. (key, (1 - d) / real (length (dict_keys corpus))
                            + linked_bonus (dict_keys corpus) pages d key)) (dict_keys corpus))"
  using assms transition_loop_fresh [of "[]" "dict_keys corpus"]
  by (simp add: transition_model_def Let_def)

lemma linked_bonus_dangling:
  "linked_bonus keys {||} d key = d / real (length keys)"
  by (simp add: linked_bonus_def)

lemma linked_bonus_linked:
  "pages \<noteq> {||} \<Longrightarrow> linked_bonus keys pages d key = (if key |\<in>| pages then d / real (fcard pages) else 0)"
  by (simp add: linked_bonus_def)

lemma sum_list_linked_bonus:
  assumes "distinct keys" "keys \<noteq> []" "fset pages \<subseteq> set keys"
  shows "sum_list (map (linked_bonus keys pages d) keys) = d"
proof (cases "pages = {||}")
  case True
  have "linked_bonus keys {||} d = (\<lambda>_. d / real (length keys))"
    by (rule ext) (simp add: linked_bonus_dangling)
  then show ?thesis using True assms(2)
    by (simp add: sum_list_triv)
next
  case False
  then have card: "fcard pages \<noteq> 0" by simp
  have inter: "set keys \<inter> fset pages = fset pages" using assms(3) by auto
  have "sum_list (map (linked_bonus keys pages d) keys)
      = (\<Sum>key\<in>set keys. if key \<in> fset pages then d / real (fcard pages) else 0)"
    using False assms(1) by (simp add: linked_bonus_linked sum_list_distinct_conv_sum_set)
  also have "\<dots> = (\<Sum>key\<in>set keys \<inter> fset pages. d / real (fcard pages))"
    by (rule sum.inter_restrict [symmetric]) simp
  also have "\<dots> = real (fcard pages) * (d / real (fcard pages))"
    by (simp add: inter fcard.rep_eq)
  also have "\<dots> = d" using card by simp
  finally show ?thesis .
qed

lemma sum_list_transition:
  assumes "distinct keys" "keys \<noteq> []" "fset pages \<subseteq> set keys"
  shows "sum_list (map snd (map (\<lambda>key. (key, (1 - d) / real (length keys) + linked_bonus keys pages d key)) keys)) = 1"
proof -
  have "sum_list (map snd (map (\<lambda>key. (key, (1 - d) / real (length keys) + linked_bonus keys pages d key)) keys))
      = sum_list (map (\<lambda>key. (1 - d) / real (length keys)) keys) + sum_list (map (linked_bonus keys pages d) keys)"
    by (simp add: comp_def sum_list_addf)
  also have "\<dots> = (1 - d) + d"
    using assms by (simp add: sum_list_linked_bonus sum_list_triv)
  finally show ?thesis by simp
qed

text \<open>
  Claim C6. On a non-empty corpus, with a damping factor strictly between 0 and 1, the
  transition model of a page whose set of outbound links is empty is the uniform
  distribution: every page of the corpus gets exactly \<open>1/N\<close>, \<open>N\<close> the number of pages.
\<close>

theorem transition_model_dangling_uniform:
  assumes "corpus \<noteq> []" and "distinct (dict_keys corpus)"
    and "0 < d" and "d < 1"
    and "getitem corpus page = Inr {||}"
  shows "transition_model corpus page d =
           Inr (map (\<lambda>q. (q, 1 / real (length (dict_keys corpus)))) (dict_keys corpus))"
proof -
  have "(1 - d) / real (length (dict_keys corpus)) + d / real (length (dict_keys corpus))
          = 1 / real (length (dict_keys corpus))"
    by (simp add: add_divide_distrib [symmetric])
  then show ?thesis
    using assms(2,5) by (simp add: transition_model_pure linked_bonus_dangling)
qed

theorem transition_model_dangling_uniform_witness:
  "transition_model [(''A'', {||}), (''B'', {|''A''|})] ''A'' (85 / 100)
     = Inr [(''A'', 1 / 2), (''B'', 1 / 2)]"
  using transition_model_dangling_uniform
          [of "[(''A'', {||}), (''B'', {|''A''|})]" "85 / 100" "''A''"]
  by (simp add: dict_keys_def getitem_def)

text \<open>
  Claim C5. On a non-empty corpus (a dict whose links all point to pages of the corpus),
  for a page of the corpus and a damping factor strictly between 0 and 1, the transition
  model returns a distribution over exactly the pages of the corpus whose values sum to 1;
  when the page has \<open>L > 0\<close> outbound links, a page \<open>q\<close> gets \<open>(1-d)/N + d/L\<close> if it is
  linked and \<open>(1-d)/N\<close> if it is not.
\<close>

theorem transition_model_distribution:
  assumes "corpus \<noteq> []" and "distinct (dict_keys corpus)" and "links_in_corpus corpus"
    and "page \<in> set (dict_keys corpus)"
    and "0 < d" and "d < 1"
  shows "\<exists>pages dist.
           getitem corpus page = Inr pages \<and>
           transition_model corpus page d = Inr dist \<and>
           sum_list (map snd dist) = 1 \<and>
           dict_keys dist = dict_keys corpus \<and>
           (0 < fcard pages \<longrightarrow>
              (\<forall>q \<in> set (dict_keys corpus).
                 getitem dist q =
                   Inr ((1 - d) / real (length (dict_keys corpus))
                          + (if q |\<in>| pages then d / real (fcard pages) else 0))))"
proof -
  obtain pages where pages: "getitem corpus page = Inr pages"
    using getitem_in_keys [OF assms(4)] by blast
  let ?keys = "dict_keys corpus"
  let ?dist = "map (\<lambda>key. (key, (1 - d) / real (length ?keys) + linked_bonus ?keys pages d key)) ?keys"
  have tm: "transition_model corpus page d = Inr ?dist"
    using assms(2) pages by (rule transition_model_pure)
  have "(page, pages) \<in> set corpus"
    using pages assms(2) by (simp add: getitem_Inr_iff)
  then have sub: "fset pages \<subseteq> set ?keys"
    using assms(3) by (auto simp: links_in_corpus_def)
  have ne: "?keys \<noteq> []" using assms(1) by (simp add: dict_keys_def)
  have s: "sum_list (map snd ?dist) = 1"
    using assms(2) ne sub by (rule sum_list_transition)
  have k: "dict_keys ?dist = ?keys" by simp
  have f: "0 < fcard pages \<longrightarrow>
              (\<forall>q \<in> set ?keys.
                 getitem ?dist q =
                   Inr ((1 - d) / real (length ?keys)
                          + (if q |\<in>| pages then d / real (fcard pages) else 0)))"
  proof (intro impI ballI)
    fix q assume "0 < fcard pages" and q: "q \<in> set ?keys"
    then have "pages \<noteq> {||}" by (auto simp: fcard_fempty)
    then show "getitem ?dist q =
                   Inr ((1 - d) / real (length ?keys)
                          + (if q |\<in>| pages then d / real (fcard pages) else 0))"
      using q by (simp add: getitem_map linked_bonus_linked)
  qed
  show ?thesis
  proof (intro exI conjI)
    show "getitem corpus page = Inr pages" by (rule pages)
    show "transition_model corpus page d = Inr ?dist" by (rule tm)
    show "sum_list (map snd ?dist) = 1" by (rule s)
    show "dict_keys ?dist = ?keys" by (rule k)
  qed (rule f)
qed

theorem transition_model_distribution_witness:
  "\<exists>dist. transition_model [(''A'', {|''B''|}), (''B'', {|''A''|}), (''C'', {||})] ''A'' (85 / 100) = Inr dist \<and>
       sum_list (map snd dist) = 1 \<and>
       dict_keys dist = [''A'', ''B'', ''C''] \<and>
       getitem dist ''A'' = Inr (1 / 20) \<and> getitem dist ''B'' = Inr (9 / 10) \<and> getitem dist ''C'' = Inr (1 / 20)"
  using transition_model_distribution
          [of "[(''A'', {|''B''|}), (''B'', {|''A''|}), (''C'', {||})]" "''A''" "85 / 100"]
  by (simp add: dict_keys_def getitem_def links_in_corpus_def fcard_finsert_if fcard_fempty)

section \<open>The transition model: errors and a worked example\<close>

lemmas eval_defs = dict_keys_def getitem_def contribution_def fcard_finsert_if fcard_fempty

text \<open>
  Claim C4, as the code has it. The transition model validates nothing itself: its only
  error is the \<^verbatim>\<open>KeyError\<close> of \<^verbatim>\<open>corpus[page]\<close>, raised exactly when the page is not a
  key of the corpus (always so on the empty corpus); for a page of the corpus it returns
  a distribution whatever the damping factor is.
\<close>

theorem transition_model_error_cases:
  "(transition_model corpus page d = Inl KeyError \<longleftrightarrow> page \<notin> set (dict_keys corpus)) \<and>
   ((\<exists>dist. transition_model corpus page d = Inr dist) \<longleftrightarrow> page \<in> set (dict_keys corpus)) \<and>
   (\<forall>e. transition_model corpus page d = Inl e \<longrightarrow> e = KeyError)"
proof (cases "getitem corpus page")
  case (Inl e)
  then have "e = KeyError" and "page \<notin> set (dict_keys corpus)"
    by (simp_all add: getitem_KeyError_iff)
  with Inl show ?thesis by (simp add: transition_model_def Let_def)
next
  case (Inr pages)
  then have "page \<in> set (dict_keys corpus)"
    using getitem_KeyError_iff [of corpus page KeyError] by auto
  with Inr show ?thesis by (simp add: transition_model_def Let_def)
qed

theorem transition_model_error_cases_witness:
  "transition_model [] ''A'' (1 / 2) = Inl KeyError \<and>
   transition_model [(''A'', {||})] ''B'' (1 / 2) = Inl KeyError \<and>
   (\<exists>dist. transition_model [(''A'', {||})] ''A'' 2 = Inr dist)"
  using transition_model_error_cases [of "[]" "''A''" "1 / 2"]
    transition_model_error_cases [of "[(''A'', {||})]" "''B''" "1 / 2"]
    transition_model_error_cases [of "[(''A'', {||})]" "''A''" 2]
  by (simp add: dict_keys_def)

text \<open>
  Claim C4 as stated fails: a damping factor of 2 lies outside \<open>(0,1)\<close>, and the call
  returns a distribution instead of failing.
\<close>

theorem transition_model_no_damping_check:
  "\<not> (0 < (2::real) \<and> (2::real) < 1) \<and>
   transition_model [(''A'', {||})] ''A'' 2 = Inr [(''A'', 1)]"
  by (simp add: transition_model_def linked_bonus_def eval_defs)


section \<open>The iterative estimator on dangling pages\<close>

text \<open>
  Claim C2, the iterative estimator on the one-page corpus \<^verbatim>\<open>{A: {}}\<close>: the inner loop
  runs over the pages other than \<^verbatim>\<open>A\<close>, of which there are none, so the page keeps only
  the teleport share \<open>(1 - d)/1\<close>. With \<open>d = 0.85\<close> the result is \<^verbatim>\<open>{A: 0.15}\<close>.
\<close>

theorem iterate_pagerank_single_page:
  "iterate_pagerank [(''A'', {||})] (85 / 100) = Some (Inr [(''A'', 15 / 100)])"
  unfolding iterate_pagerank_def Let_def
  by (subst converge_loop.simps, simp add: eval_defs, subst converge_loop.simps, simp add: eval_defs)

text \<open>
  Claim C3, on the corpus of three pages without links, \<open>d = 0.85\<close>: each page receives
  \<open>1/3\<close> from each of the two other pages, the second pass changes nothing, and the
  returned values sum to \<open>37/20 = 1.85\<close>.
\<close>

theorem iterate_pagerank_three_dangling:
  "\<exists>dist. iterate_pagerank [(''A'', {||}), (''B'', {||}), (''C'', {||})] (85 / 100) = Some (Inr dist) \<and>
     dist = [(''A'', 37 / 60), (''B'', 37 / 60), (''C'', 37 / 60)] \<and>
     sum_list (map snd dist) = 37 / 20"
  unfolding iterate_pagerank_def Let_def
  by (subst converge_loop.simps, simp add: eval_defs, subst converge_loop.simps, simp add: eval_defs)

text \<open>
  Claim C1, on the same corpus in the first pass, where every page has rank \<open>1/3\<close>: the
  dangling page \<^verbatim>\<open>B\<close> adds \<open>1/3\<close> (that is \<^verbatim>\<open>1/len(pages)\<close>) to the partial sum of
  \<^verbatim>\<open>A\<close>, not its rank divided by the number of pages, which is \<open>1/9\<close>.
\<close>

theorem contribution_dangling_ignores_rank:
  "getitem (init_loop [''A'', ''B'', ''C''] [''A'', ''B'', ''C''] []) ''B'' = Inr (1 / 3) \<and>
   contribution [(''A'', {||}), (''B'', {||}), (''C'', {||})]
       (init_loop [''A'', ''B'', ''C''] [''A'', ''B'', ''C''] []) [''A'', ''B'', ''C''] ''A'' ''B''
     = Inr (1 / 3) \<and>
   (1 / 3 :: real) \<noteq> (1 / 3) / 3"
  by (simp add: eval_defs)

section \<open>The sampling estimator\<close>

lemma linked_bonus_nonneg: "0 \<le> d \<Longrightarrow> 0 \<le> linked_bonus keys pages d key"
  by (simp add: linked_bonus_def)

lemma transition_weight_pos:
  assumes "keys \<noteq> []" and "0 < d" and "d < 1"
  shows "0 < (1 - d) / real (length keys) + linked_bonus keys pages d key"
proof -
  have "0 < (1 - d) / real (length keys)" using assms by simp
  moreover have "0 \<le> linked_bonus keys pages d key"
    using assms(2) by (simp add: linked_bonus_nonneg)
  ultimately show ?thesis by linarith
qed

lemma probs_loop_map:
  "set xs \<subseteq> set ks \<Longrightarrow>
   probs_loop (map (\<lambda>q. (q, f q)) ks) xs probs = Inr (probs @ map f xs)"
  by (induction xs arbitrary: probs) (simp_all add: getitem_map)

lemma random_ok_choice:
  "random_ok R \<Longrightarrow> xs \<noteq> [] \<Longrightarrow> \<exists>p g'. rand_choice R g xs = Inr (p, g') \<and> p \<in> set xs"
  unfolding random_ok_def by blast

lemma random_ok_choices:
  "random_ok R \<Longrightarrow> xs \<noteq> [] \<Longrightarrow> length ws = length xs \<Longrightarrow> \<forall>w \<in> set ws. 0 < w \<Longrightarrow>
   \<exists>p g'. rand_choices R g xs ws = Inr (p, g') \<and> p \<in> set xs"
  unfolding random_ok_def by blast

lemma walk_loop_run:
  assumes "random_ok R" and "corpus \<noteq> []" and "distinct (dict_keys corpus)"
    and "0 < d" and "d < 1"
  shows "cur_page \<in> set (dict_keys corpus) \<Longrightarrow> set raw \<subseteq> set (dict_keys corpus) \<Longrightarrow>
         \<exists>raw' g'. walk_loop R corpus d k cur_page raw g = Inr (raw', g') \<and>
                   length raw' = length raw + k \<and> set raw' \<subseteq> set (dict_keys corpus)"
proof (induction k arbitrary: cur_page raw g)
  case 0
  then show ?case by simp
next
  case (Suc k)
  let ?keys = "dict_keys corpus"
  have ne: "?keys \<noteq> []" using assms(2) by (simp add: dict_keys_def)
  obtain pages where pages: "getitem corpus cur_page = Inr pages"
    using getitem_in_keys [OF Suc.prems(1)] by blast
  let ?w = "\<lambda>key. (1 - d) / real (length ?keys) + linked_bonus ?keys pages d key"
  have tm: "transition_model corpus cur_page d = Inr (map (\<lambda>key. (key, ?w key)) ?keys)"
    using assms(3) pages by (rule transition_model_pure)
  have pl: "probs_loop (map (\<lambda>key. (key, ?w key)) ?keys) ?keys [] = Inr (map ?w ?keys)"
    using probs_loop_map [of ?keys ?keys ?w "[]"] by simp
  have pos: "\<forall>w \<in> set (map ?w ?keys). 0 < w"
    using transition_weight_pos [OF ne assms(4,5)] by auto
  have len: "length (map ?w ?keys) = length ?keys" by simp
  from random_ok_choices [OF assms(1) ne len pos, of g]
  obtain p g' where draw: "rand_choices R g ?keys (map ?w ?keys) = Inr (p, g')"
    and p: "p \<in> set ?keys"
    by blast
  have "set (raw @ [p]) \<subseteq> set ?keys" using Suc.prems(2) p by simp
  from Suc.IH [OF p this, of g'] obtain raw' g'' where
    "walk_loop R corpus d k p (raw @ [p]) g' = Inr (raw', g'')"
    "length raw' = length (raw @ [p]) + k" "set raw' \<subseteq> set ?keys"
    by blast
  then show ?case
    using tm pl draw by simp
qed

lemma sample_visits_run:
  assumes "random_ok R" and "corpus \<noteq> []" and "distinct (dict_keys corpus)"
    and "0 < d" and "d < 1" and "1 \<le> n"
  shows "\<exists>visits g'. sample_visits R corpus d n g = Inr (visits, g') \<and>
            int (length visits) = n \<and> set visits \<subseteq> set (dict_keys corpus)"
proof -
  have ne: "dict_keys corpus \<noteq> []" using assms(2) by (simp add: dict_keys_def)
  from random_ok_choice [OF assms(1) ne, of g]
  obtain p g1 where start: "rand_choice R g (dict_keys corpus) = Inr (p, g1)"
    and p: "p \<in> set (dict_keys corpus)"
    by blast
  have "set [p] \<subseteq> set (dict_keys corpus)" using p by simp
  from walk_loop_run [OF assms(1-5) p this, of "nat (n - 1)" g1]
  obtain visits g' where
    "walk_loop R corpus d (nat (n - 1)) p [p] g1 = Inr (visits, g')"
    "length visits = length [p] + nat (n - 1)" "set visits \<subseteq> set (dict_keys corpus)"
    by blast
  then show ?thesis
    using start assms(6) by (simp add: sample_visits_def)
qed

lemma count_loop_fresh:
  "n \<noteq> 0 \<Longrightarrow> distinct (map fst pageranks @ ks) \<Longrightarrow>
   count_loop raw n ks pageranks =
     Inr (pageranks @ map (\<lambda>key. (key, real (count_list raw key) / real_of_int n)) ks)"
proof (induction ks arbitrary: pageranks)
  case Nil
  then show ?case by simp
next
  case (Cons key rest)
  have fresh: "key \<notin> fst ` set pageranks" using Cons.prems by auto
  have "distinct (map fst (pageranks @ [(key, v)]) @ rest)" for v
    using Cons.prems by auto
  then show ?case
    using Cons.prems(1) by (simp add: Cons.IH setitem_fresh [OF fresh])
qed

lemma sum_list_counts:
  assumes "distinct keys" and "set raw \<subseteq> set keys" and "n \<noteq> 0"
  shows "sum_list (map snd (map (\<lambda>key. (key, real (count_list raw key) / real_of_int n)) keys))
           = real (length raw) / real_of_int n"
proof -
  have "sum_list (map snd (map (\<lambda>key. (key, real (count_list raw key) / real_of_int n)) keys))
      = (\<Sum>key\<in>set keys. real (count_list raw key) / real_of_int n)"
    using assms(1) by (simp add: comp_def sum_list_distinct_conv_sum_set)
  also have "\<dots> = real (\<Sum>key\<in>set keys. count_list raw key) / real_of_int n"
    by (simp add: sum_divide_distrib)
  also have "(\<Sum>key\<in>set keys. count_list raw key) = length raw"
    using assms(2) by (simp add: sum_count_set)
  finally show ?thesis .
qed

lemma sample_pagerank_run:
  assumes "random_ok R" and "corpus \<noteq> []" and "distinct (dict_keys corpus)"
    and "0 < d" and "d < 1" and "1 \<le> n"
  shows "\<exists>visits g'.
           sample_visits R corpus d n g = Inr (visits, g') \<and>
           int (length visits) = n \<and> set visits \<subseteq> set (dict_keys corpus) \<and>
           sample_pagerank R corpus d n g =
             Inr (map (\<lambda>key. (key, real (count_list visits key) / real_of_int n))
                    (dict_keys corpus))"
proof -
  from sample_visits_run [OF assms, of g] obtain visits g' where
    v: "sample_visits R corpus d n g = Inr (visits, g')"
       "int (length visits) = n" "set visits \<subseteq> set (dict_keys corpus)"
    by blast
  have "n \<noteq> 0" using assms(6) by simp
  then have "count_loop visits n (dict_keys corpus) [] =
     Inr (map (\<lambda>key. (key, real (count_list visits key) / real_of_int n)) (dict_keys corpus))"
    using count_loop_fresh [of n "[]" "dict_keys corpus" visits] assms(3) by simp
  then show ?thesis
    using v by (simp add: sample_pagerank_def)
qed

text \<open>
  Claim C7. On a non-empty corpus, with a damping factor strictly between 0 and 1 and
  \<open>n \<ge> 1\<close> samples, whatever the random source draws: the walk records exactly \<open>n\<close>
  visits, all of them pages of the corpus; the estimator returns, for every page, its
  number of visits divided by \<open>n\<close>; each count lies between 0 and \<open>n\<close>; and the returned
  values sum to 1.
\<close>

theorem sample_pagerank_counts:
  assumes "random_ok R" and "corpus \<noteq> []" and "distinct (dict_keys corpus)"
    and "0 < d" and "d < 1" and "1 \<le> n"
  shows "\<exists>visits g' dist.
           sample_visits R corpus d n g = Inr (visits, g') \<and>
           int (length visits) = n \<and> set visits \<subseteq> set (dict_keys corpus) \<and>
           sample_pagerank R corpus d n g = Inr dist \<and>
           dist = map (\<lambda>key. (key, real (count_list visits key) / real_of_int n))
                    (dict_keys corpus) \<and>
           (\<forall>key \<in> set (dict_keys corpus).
              0 \<le> int (count_list visits key) \<and> int (count_list visits key) \<le> n) \<and>
           sum_list (map snd dist) = 1"
proof -
  from sample_pagerank_run [OF assms, of g] obtain visits g' where
    v: "sample_visits R corpus d n g = Inr (visits, g')"
       "int (length visits) = n" "set visits \<subseteq> set (dict_keys corpus)"
       "sample_pagerank R corpus d n g =
          Inr (map (\<lambda>key. (key, real (count_list visits key) / real_of_int n))
                 (dict_keys corpus))"
    by blast
  have n: "n \<noteq> 0" using assms(6) by simp
  have le: "\<forall>key \<in> set (dict_keys corpus).
              0 \<le> int (count_list visits key) \<and> int (count_list visits key) \<le> n"
    using count_le_length [of visits] v(2) by auto
  have "sum_list (map snd (map (\<lambda>key. (key, real (count_list visits key) / real_of_int n))
                    (dict_keys corpus))) = real (length visits) / real_of_int n"
    using assms(3) v(3) n by (rule sum_list_counts)
  also have "\<dots> = 1" using v(2) n by auto
  finally have s: "sum_list (map snd (map (\<lambda>key. (key, real (count_list visits key) / real_of_int n))
                    (dict_keys corpus))) = 1" .
  show ?thesis
  proof (intro exI conjI)
    show "sample_visits R corpus d n g = Inr (visits, g')" by (rule v(1))
    show "int (length visits) = n" by (rule v(2))
    show "set visits \<subseteq> set (dict_keys corpus)" by (rule v(3))
    show "sample_pagerank R corpus d n g =
          Inr (map (\<lambda>key. (key, real (count_list visits key) / real_of_int n))
                 (dict_keys corpus))" by (rule v(4))
  qed (rule refl le s)+
qed

lemma first_source_ok: "random_ok first_source"
  by (auto simp: random_ok_def first_source_def split: list.splits)

theorem sample_pagerank_counts_witness:
  "\<exists>dist. sample_pagerank first_source [(''A'', {|''B''|}), (''B'', {|''A''|})] (85 / 100) 3 ()
             = Inr dist \<and> sum_list (map snd dist) = 1"
proof -
  have c: "[(''A'', {|''B''|}), (''B'', {|''A''|})] \<noteq> []"
    "distinct (dict_keys [(''A'', {|''B''|}), (''B'', {|''A''|})])"
    by (simp_all add: dict_keys_def)
  have d: "(0::real) < 85 / 100" "(85 / 100 :: real) < 1" "(1::int) \<le> 3"
    by simp_all
  from sample_pagerank_counts [OF first_source_ok c d, of "()"]
  obtain dist where
    "sample_pagerank first_source [(''A'', {|''B''|}), (''B'', {|''A''|})] (85 / 100) 3 () = Inr dist"
    "sum_list (map snd dist) = 1"
    by blast
  then show ?thesis by blast
qed

section \<open>One pass of the iterative estimator as a function on rank vectors\<close>

lemma dict_keys_as_dict [simp]: "dict_keys (as_dict pages x) = pages"
  by (simp add: as_dict_def)

lemma getitem_as_dict: "p \<in> set pages \<Longrightarrow> getitem (as_dict pages x) p = Inr (x p)"
  by (simp add: as_dict_def getitem_map)

lemma getitem_corpus:
  "parent \<in> set (dict_keys corpus) \<Longrightarrow> getitem corpus parent = Inr (links_of corpus parent)"
  by (cases "map_of corpus parent")
     (simp_all add: getitem_def links_of_def dict_keys_def map_of_eq_None_iff)

lemma as_dict_cong: "(\<And>p. p \<in> set pages \<Longrightarrow> x p = y p) \<Longrightarrow> as_dict pages x = as_dict pages y"
  by (simp add: as_dict_def)

lemma setitem_as_dict:
  "distinct pages \<Longrightarrow> p \<in> set pages \<Longrightarrow>
   setitem (as_dict pages y) p v = as_dict pages (\<lambda>a. if a = p then v else y a)"
proof (induction pages)
  case Nil
  then show ?case by simp
next
  case (Cons q qs)
  show ?case
  proof (cases "q = p")
    case True
    then have "p \<notin> set qs" using Cons.prems(1) by simp
    then have "as_dict qs (\<lambda>a. if a = p then v else y a) = as_dict qs y"
      by (intro as_dict_cong) auto
    then show ?thesis using True by (simp add: as_dict_def)
  next
    case False
    then have "setitem (as_dict qs y) p v = as_dict qs (\<lambda>a. if a = p then v else y a)"
      using Cons by simp
    then show ?thesis using False by (simp add: as_dict_def)
  qed
qed

lemma init_loop_fresh:
  "distinct (map fst prob_dis @ ks) \<Longrightarrow>
   init_loop pages ks prob_dis = prob_dis @ as_dict ks (\<lambda>_. 1 / real (length pages))"
proof (induction ks arbitrary: prob_dis)
  case Nil
  then show ?case by (simp add: as_dict_def)
next
  case (Cons page rest)
  have fresh: "page \<notin> fst ` set prob_dis" using Cons.prems by auto
  have "distinct (map fst (prob_dis @ [(page, v)]) @ rest)" for v
    using Cons.prems by auto
  then show ?case
    by (simp add: Cons.IH setitem_fresh [OF fresh] as_dict_def)
qed

lemma init_loop_pure:
  "distinct pages \<Longrightarrow> init_loop pages pages [] = as_dict pages (\<lambda>_. 1 / real (length pages))"
  using init_loop_fresh [of "[]" pages pages] by simp

lemma contribution_pure:
  assumes "parent \<in> set (dict_keys corpus)"
  shows "contribution corpus (as_dict (dict_keys corpus) x) (dict_keys corpus) page parent
           = Inr (contrib corpus x page parent)"
  using assms by (simp add: contribution_def contrib_def getitem_corpus getitem_as_dict)

lemma partial_prob_loop_pure:
  "set ps \<subseteq> set (dict_keys corpus) \<Longrightarrow>
   partial_prob_loop corpus (as_dict (dict_keys corpus) x) (dict_keys corpus) page ps acc
     = Inr (acc + sum_list (map (contrib corpus x page) ps))"
  by (induction ps arbitrary: acc) (simp_all add: contribution_pure add.assoc)

lemma sum_list_others:
  assumes "distinct pages"
  shows "sum_list (map f (removeAll page (remdups pages))) = sum f (set pages - {page})"
proof -
  have "distinct (removeAll page pages)" using assms by (simp add: distinct_removeAll)
  then have "sum_list (map f (removeAll page pages)) = sum f (set (removeAll page pages))"
    by (rule sum_list_distinct_conv_sum_set)
  then show ?thesis using assms by (simp add: distinct_remdups_id)
qed

lemma partial_prob_pure:
  assumes "distinct (dict_keys corpus)"
  shows "partial_prob_loop corpus (as_dict (dict_keys corpus) x) (dict_keys corpus) page
           (removeAll page (remdups (dict_keys corpus))) 0
         = Inr (\<Sum>parent \<in> set (dict_keys corpus) - {page}. contrib corpus x page parent)"
proof -
  have "set (removeAll page (remdups (dict_keys corpus))) \<subseteq> set (dict_keys corpus)"
    by auto
  then show ?thesis
    using sum_list_others [OF assms, of "contrib corpus x page" page]
    by (simp add: partial_prob_loop_pure)
qed

lemma pass_loop_pure:
  assumes "distinct (dict_keys corpus)"
  shows "set rest \<subseteq> set (dict_keys corpus) \<Longrightarrow> distinct rest \<Longrightarrow>
         pass_loop corpus d (dict_keys corpus) (as_dict (dict_keys corpus) x) rest
             (as_dict (dict_keys corpus) y) diff
           = Inr (as_dict (dict_keys corpus)
                    (\<lambda>p. if p \<in> set rest then rank_update corpus d x p else y p),
                  diff @ map (\<lambda>p. \<bar>x p - rank_update corpus d x p\<bar>) rest)"
proof (induction rest arbitrary: y diff)
  case Nil
  then show ?case by simp
next
  case (Cons page rest)
  let ?pages = "dict_keys corpus"
  let ?v = "rank_update corpus d x page"
  have page: "page \<in> set ?pages" and rest: "set rest \<subseteq> set ?pages"
    and fresh: "page \<notin> set rest" and dist: "distinct rest"
    using Cons.prems by auto
  have set_it: "setitem (as_dict ?pages y) page ?v = as_dict ?pages (\<lambda>a. if a = page then ?v else y a)"
    using assms page by (rule setitem_as_dict)
  have eq: "(\<lambda>p. if p \<in> set rest then rank_update corpus d x p else (if p = page then ?v else y p))
          = (\<lambda>p. if p \<in> set (page # rest) then rank_update corpus d x p else y p)"
    using fresh by auto
  have v: "(1 - d) / real (length ?pages)
             + d * (\<Sum>parent \<in> set ?pages - {page}. contrib corpus x page parent) = ?v"
    by (simp add: rank_update_def)
  show ?case
    using Cons.IH [OF rest dist, of "\<lambda>a. if a = page then ?v else y a" "diff @ [\<bar>x page - ?v\<bar>]"] page
    by (simp add: partial_prob_pure [OF assms] v set_it getitem_as_dict eq)
qed

lemma pass_pure:
  assumes "distinct (dict_keys corpus)"
  shows "pass_loop corpus d (dict_keys corpus) (as_dict (dict_keys corpus) x) (dict_keys corpus)
             (as_dict (dict_keys corpus) x) []
           = Inr (as_dict (dict_keys corpus) (rank_update corpus d x),
                  map (\<lambda>p. \<bar>x p - rank_update corpus d x p\<bar>) (dict_keys corpus))"
proof -
  have "as_dict (dict_keys corpus)
          (\<lambda>p. if p \<in> set (dict_keys corpus) then rank_update corpus d x p else x p)
        = as_dict (dict_keys corpus) (rank_update corpus d x)"
    by (intro as_dict_cong) simp
  then show ?thesis
    using pass_loop_pure [OF assms subset_refl assms, of d x x "[]"] by simp
qed

section \<open>The pass is a contraction\<close>

lemma link_weight_nonneg: "0 \<le> link_weight corpus page parent"
  by (simp add: link_weight_def)

lemma contrib_diff:
  "contrib corpus x page parent - contrib corpus y page parent
     = link_weight corpus page parent * (x parent - y parent)"
  by (simp add: contrib_def link_weight_def diff_divide_distrib)

lemma rank_update_diff:
  "rank_update corpus d x page - rank_update corpus d y page
     = d * (\<Sum>parent \<in> set (dict_keys corpus) - {page}.
              link_weight corpus page parent * (x parent - y parent))"
proof -
  have "rank_update corpus d x page - rank_update corpus d y page
      = d * ((\<Sum>parent \<in> set (dict_keys corpus) - {page}. contrib corpus x page parent)
           - (\<Sum>parent \<in> set (dict_keys corpus) - {page}. contrib corpus y page parent))"
    by (simp add: rank_update_def right_diff_distrib)
  also have "\<dots> = d * (\<Sum>parent \<in> set (dict_keys corpus) - {page}.
                        contrib corpus x page parent - contrib corpus y page parent)"
    by (simp add: sum_subtractf)
  finally show ?thesis by (simp add: contrib_diff)
qed

lemma rank_update_diff_le:
  assumes "0 \<le> d"
  shows "\<bar>rank_update corpus d x page - rank_update corpus d y page\<bar>
           \<le> d * (\<Sum>parent \<in> set (dict_keys corpus).
                     link_weight corpus page parent * \<bar>x parent - y parent\<bar>)"
proof -
  let ?S = "set (dict_keys corpus)"
  let ?w = "link_weight corpus page"
  have "\<bar>\<Sum>parent \<in> ?S - {page}. ?w parent * (x parent - y parent)\<bar>
          \<le> (\<Sum>parent \<in> ?S - {page}. \<bar>?w parent * (x parent - y parent)\<bar>)"
    by (rule sum_abs)
  also have "\<dots> = (\<Sum>parent \<in> ?S - {page}. ?w parent * \<bar>x parent - y parent\<bar>)"
    by (simp add: abs_mult link_weight_nonneg)
  also have "\<dots> \<le> (\<Sum>parent \<in> ?S. ?w parent * \<bar>x parent - y parent\<bar>)"
    by (rule sum_mono2) (auto simp: link_weight_nonneg)
  finally have "\<bar>\<Sum>parent \<in> ?S - {page}. ?w parent * (x parent - y parent)\<bar>
          \<le> (\<Sum>parent \<in> ?S. ?w parent * \<bar>x parent - y parent\<bar>)" .
  then have "d * \<bar>\<Sum>parent \<in> ?S - {page}. ?w parent * (x parent - y parent)\<bar>
          \<le> d * (\<Sum>parent \<in> ?S. ?w parent * \<bar>x parent - y parent\<bar>)"
    using assms by (rule mult_left_mono)
  then show ?thesis
    using assms by (simp add: rank_update_diff abs_mult)
qed

lemma link_weight_sum_le:
  assumes "finite S"
  shows "(\<Sum>page \<in> S. link_weight corpus page parent) \<le> 1"
proof (cases "links_of corpus parent = {||}")
  case True
  then show ?thesis by (simp add: link_weight_def)
next
  case False
  let ?L = "links_of corpus parent"
  have "(\<Sum>page \<in> S. link_weight corpus page parent)
      = (\<Sum>page \<in> S \<inter> fset ?L. 1 / real (fcard ?L))"
    unfolding link_weight_def by (rule sum.inter_restrict [symmetric]) (rule assms)
  also have "\<dots> = real (card (S \<inter> fset ?L)) / real (fcard ?L)"
    by simp
  also have "\<dots> \<le> real (fcard ?L) / real (fcard ?L)"
  proof (rule divide_right_mono)
    have "card (S \<inter> fset ?L) \<le> card (fset ?L)"
      by (rule card_mono) auto
    then show "real (card (S \<inter> fset ?L)) \<le> real (fcard ?L)"
      by (simp add: fcard.rep_eq)
  qed simp
  also have "\<dots> = 1" using False by simp
  finally show ?thesis .
qed

lemma rank_update_contraction:
  assumes "0 \<le> d"
  shows "l1_dist (dict_keys corpus) (rank_update corpus d x) (rank_update corpus d y)
           \<le> d * l1_dist (dict_keys corpus) x y"
proof -
  let ?S = "set (dict_keys corpus)"
  let ?w = "link_weight corpus"
  let ?a = "\<lambda>i. \<bar>x i - y i\<bar>"
  have "(\<Sum>p \<in> ?S. \<bar>rank_update corpus d x p - rank_update corpus d y p\<bar>)
          \<le> (\<Sum>p \<in> ?S. d * (\<Sum>i \<in> ?S. ?w p i * ?a i))"
    by (rule sum_mono) (rule rank_update_diff_le [OF assms])
  also have "\<dots> = d * (\<Sum>p \<in> ?S. \<Sum>i \<in> ?S. ?w p i * ?a i)"
    by (simp add: sum_distrib_left)
  also have "(\<Sum>p \<in> ?S. \<Sum>i \<in> ?S. ?w p i * ?a i) = (\<Sum>i \<in> ?S. \<Sum>p \<in> ?S. ?w p i * ?a i)"
    by (rule sum.swap)
  also have "\<dots> = (\<Sum>i \<in> ?S. (\<Sum>p \<in> ?S. ?w p i) * ?a i)"
    by (simp add: sum_distrib_right)
  also have "d * \<dots> \<le> d * (\<Sum>i \<in> ?S. 1 * ?a i)"
  proof (rule mult_left_mono [OF _ assms], rule sum_mono, rule mult_right_mono)
    fix i
    show "(\<Sum>p \<in> ?S. ?w p i) \<le> 1" by (rule link_weight_sum_le) simp
    show "0 \<le> ?a i" by simp
  qed
  finally show ?thesis by (simp add: l1_dist_def)
qed

lemma l1_dist_nonneg: "0 \<le> l1_dist pages x y"
  by (simp add: l1_dist_def sum_nonneg)

lemma l1_dist_member: "p \<in> set pages \<Longrightarrow> \<bar>x p - y p\<bar> \<le> l1_dist pages x y"
  unfolding l1_dist_def
  by (rule member_le_sum [of p "set pages" "\<lambda>p. \<bar>x p - y p\<bar>"]) simp_all

lemma ranks_Suc: "ranks corpus d (Suc k) = rank_update corpus d (ranks corpus d k)"
  by (simp add: ranks_def)

lemma ranks_geometric:
  assumes "0 \<le> d"
  shows "l1_dist (dict_keys corpus) (ranks corpus d k) (ranks corpus d (Suc k))
           \<le> d ^ k * l1_dist (dict_keys corpus) (ranks corpus d 0) (ranks corpus d 1)"
proof (induction k)
  case 0
  then show ?case by simp
next
  case (Suc k)
  have "l1_dist (dict_keys corpus) (ranks corpus d (Suc k)) (ranks corpus d (Suc (Suc k)))
          \<le> d * l1_dist (dict_keys corpus) (ranks corpus d k) (ranks corpus d (Suc k))"
    using rank_update_contraction [OF assms] by (simp add: ranks_Suc)
  also have "\<dots> \<le> d * (d ^ k * l1_dist (dict_keys corpus) (ranks corpus d 0) (ranks corpus d 1))"
    using Suc assms by (rule mult_left_mono)
  finally show ?case by (simp add: mult.assoc)
qed

lemma eventually_settled:
  assumes "0 \<le> d" and "d < 1"
  shows "\<exists>k. settled corpus d k"
proof -
  let ?D = "l1_dist (dict_keys corpus) (ranks corpus d 0) (ranks corpus d 1)"
  have "\<exists>k. d ^ k * ?D \<le> 1 / 1000"
  proof (cases "?D = 0")
    case True
    then show ?thesis by simp
  next
    case False
    then have pos: "0 < ?D" using l1_dist_nonneg [of "dict_keys corpus"] by (simp add: less_le)
    then have "0 < (1 / 1000) / ?D" by simp
    from real_arch_pow_inv [OF this assms(2)] obtain k where "d ^ k < (1 / 1000) / ?D" ..
    then have "d ^ k * ?D < 1 / 1000" using pos by (simp add: pos_less_divide_eq)
    then show ?thesis by (intro exI [of _ k]) simp
  qed
  then obtain k where k: "d ^ k * ?D \<le> 1 / 1000" ..
  have "settled corpus d k"
    unfolding settled_def
  proof
    fix p assume "p \<in> set (dict_keys corpus)"
    then have "\<bar>ranks corpus d k p - ranks corpus d (Suc k) p\<bar>
                 \<le> l1_dist (dict_keys corpus) (ranks corpus d k) (ranks corpus d (Suc k))"
      by (rule l1_dist_member)
    also have "\<dots> \<le> d ^ k * ?D" by (rule ranks_geometric [OF assms(1)])
    finally show "\<bar>ranks corpus d k p - ranks corpus d (Suc k) p\<bar> \<le> 1 / 1000"
      using k by simp
  qed
  then show ?thesis ..
qed

section \<open>The loop of the iterative estimator ends\<close>

lemma init_ranks:
  "distinct (dict_keys corpus) \<Longrightarrow>
   init_loop (dict_keys corpus) (dict_keys corpus) [] = as_dict (dict_keys corpus) (ranks corpus d 0)"
  by (simp add: init_loop_pure ranks_def)

lemma pass_ranks:
  assumes "distinct (dict_keys corpus)"
  shows "pass_loop corpus d (dict_keys corpus) (as_dict (dict_keys corpus) (ranks corpus d k))
           (dict_keys corpus) (as_dict (dict_keys corpus) (ranks corpus d k)) []
         = Inr (as_dict (dict_keys corpus) (ranks corpus d (Suc k)),
                map (\<lambda>p. \<bar>ranks corpus d k p - ranks corpus d (Suc k) p\<bar>) (dict_keys corpus))"
  using pass_pure [OF assms, of d "ranks corpus d k"] by (simp add: ranks_Suc)

lemma any_diff_iff:
  "list_ex (\<lambda>v. v > 1 / 1000)
     (map (\<lambda>p. \<bar>ranks corpus d k p - ranks corpus d (Suc k) p\<bar>) (dict_keys corpus))
   \<longleftrightarrow> \<not> settled corpus d k"
  by (auto simp: list_ex_iff settled_def not_le)

lemma converge_loop_step:
  assumes "distinct (dict_keys corpus)"
  shows "converge_loop corpus d (dict_keys corpus) (as_dict (dict_keys corpus) (ranks corpus d k))
         = (if settled corpus d k
            then Some (Inr (as_dict (dict_keys corpus) (ranks corpus d (Suc k))))
            else converge_loop corpus d (dict_keys corpus)
                   (as_dict (dict_keys corpus) (ranks corpus d (Suc k))))"
  by (subst converge_loop.simps) (simp add: pass_ranks [OF assms] any_diff_iff)

lemma converge_loop_from:
  assumes "distinct (dict_keys corpus)"
  shows "settled corpus d (m + k) \<Longrightarrow> \<forall>j<k. \<not> settled corpus d (m + j) \<Longrightarrow>
         converge_loop corpus d (dict_keys corpus) (as_dict (dict_keys corpus) (ranks corpus d m))
           = Some (Inr (as_dict (dict_keys corpus) (ranks corpus d (Suc (m + k)))))"
proof (induction k arbitrary: m)
  case 0
  then show ?case by (simp add: converge_loop_step [OF assms])
next
  case (Suc k)
  have not_yet: "\<not> settled corpus d m" using Suc.prems(2) [rule_format, of 0] by simp
  have "settled corpus d (Suc m + k)" using Suc.prems(1) by simp
  moreover have "\<forall>j<k. \<not> settled corpus d (Suc m + j)"
    using Suc.prems(2) by (auto dest: spec [of _ "Suc j" for j])
  ultimately have "converge_loop corpus d (dict_keys corpus)
                     (as_dict (dict_keys corpus) (ranks corpus d (Suc m)))
        = Some (Inr (as_dict (dict_keys corpus) (ranks corpus d (Suc (Suc m + k)))))"
    by (rule Suc.IH)
  then show ?case
    using not_yet by (simp add: converge_loop_step [OF assms, of d m])
qed

lemma prob_dis_after_ranks:
  assumes "distinct (dict_keys corpus)"
  shows "prob_dis_after corpus d k = Inr (as_dict (dict_keys corpus) (ranks corpus d k))"
proof (induction k)
  case 0
  then show ?case by (simp add: Let_def init_ranks [OF assms])
next
  case (Suc k)
  then show ?case by (simp add: pass_ranks [OF assms])
qed

lemma iterate_pagerank_result:
  assumes "distinct (dict_keys corpus)" and "0 \<le> d" and "d < 1"
  shows "\<exists>k. iterate_pagerank corpus d
                = Some (Inr (as_dict (dict_keys corpus) (ranks corpus d (Suc k)))) \<and>
             settled corpus d k \<and> (\<forall>j<k. \<not> settled corpus d j)"
proof -
  define k where "k = (LEAST k. settled corpus d k)"
  have ex: "\<exists>k. settled corpus d k" using assms(2,3) by (rule eventually_settled)
  then have k: "settled corpus d k" unfolding k_def by (rule LeastI_ex)
  have before: "\<forall>j<k. \<not> settled corpus d j"
    unfolding k_def using not_less_Least by blast
  have "converge_loop corpus d (dict_keys corpus) (as_dict (dict_keys corpus) (ranks corpus d 0))
          = Some (Inr (as_dict (dict_keys corpus) (ranks corpus d (Suc (0 + k)))))"
    using converge_loop_from [OF assms(1), of d 0 k] k before by simp
  then have "iterate_pagerank corpus d
          = Some (Inr (as_dict (dict_keys corpus) (ranks corpus d (Suc k))))"
    by (simp add: iterate_pagerank_def Let_def init_ranks [OF assms(1), of d])
  with k before show ?thesis by blast
qed

lemma rank_change_ranks:
  "p \<in> set (dict_keys corpus) \<Longrightarrow>
   rank_change (as_dict (dict_keys corpus) (ranks corpus d k))
               (as_dict (dict_keys corpus) (ranks corpus d (Suc k))) p
     = Inr \<bar>ranks corpus d k p - ranks corpus d (Suc k) p\<bar>"
  by (simp add: rank_change_def getitem_as_dict)

text \<open>
  Claim C9. On a non-empty corpus with a damping factor strictly between 0 and 1 the loop
  of the iterative estimator ends: there is a number \<open>k\<close> of earlier passes such that the
  estimator returns the ranks after pass \<open>k + 1\<close>, no page's value changed by more than
  0.001 in that last pass, and in every earlier pass some page's value did.
\<close>

theorem iterate_pagerank_terminates:
  assumes "corpus \<noteq> []" and "distinct (dict_keys corpus)" and "0 < d" and "d < 1"
  shows "\<exists>k prev dist.
           iterate_pagerank corpus d = Some (Inr dist) \<and>
           prob_dis_after corpus d k = Inr prev \<and>
           prob_dis_after corpus d (Suc k) = Inr dist \<and>
           (\<forall>p \<in> set (dict_keys corpus).
              \<exists>c. rank_change prev dist p = Inr c \<and> c \<le> 1 / 1000) \<and>
           (\<forall>j<k. \<exists>a b. prob_dis_after corpus d j = Inr a \<and>
                         prob_dis_after corpus d (Suc j) = Inr b \<and>
                         (\<exists>p \<in> set (dict_keys corpus).
                            \<exists>c. rank_change a b p = Inr c \<and> c > 1 / 1000))"
proof -
  have d0: "0 \<le> d" using assms(3) by simp
  from iterate_pagerank_result [OF assms(2) d0 assms(4)] obtain k where
    res: "iterate_pagerank corpus d
            = Some (Inr (as_dict (dict_keys corpus) (ranks corpus d (Suc k))))"
    and k: "settled corpus d k" and before: "\<forall>j<k. \<not> settled corpus d j"
    by blast
  note after = prob_dis_after_ranks [OF assms(2), of d]
  show ?thesis
  proof (intro exI conjI)
    show "iterate_pagerank corpus d
            = Some (Inr (as_dict (dict_keys corpus) (ranks corpus d (Suc k))))"
      by (rule res)
    show "prob_dis_after corpus d k = Inr (as_dict (dict_keys corpus) (ranks corpus d k))"
      by (rule after)
    show "prob_dis_after corpus d (Suc k)
            = Inr (as_dict (dict_keys corpus) (ranks corpus d (Suc k)))"
      by (rule after)
    show "\<forall>p \<in> set (dict_keys corpus).
            \<exists>c. rank_change (as_dict (dict_keys corpus) (ranks corpus d k))
                             (as_dict (dict_keys corpus) (ranks corpus d (Suc k))) p = Inr c \<and>
                c \<le> 1 / 1000"
      using k by (simp add: settled_def rank_change_ranks)
    show "\<forall>j<k. \<exists>a b. prob_dis_after corpus d j = Inr a \<and>
                     prob_dis_after corpus d (Suc j) = Inr b \<and>
                     (\<exists>p \<in> set (dict_keys corpus).
                        \<exists>c. rank_change a b p = Inr c \<and> c > 1 / 1000)"
    proof (intro allI impI)
      fix j assume "j < k"
      then have "\<not> settled corpus d j" using before by simp
      then obtain p where p: "p \<in> set (dict_keys corpus)"
        and big: "\<bar>ranks corpus d j p - ranks corpus d (Suc j) p\<bar> > 1 / 1000"
        by (auto simp: settled_def not_le)
      have "\<exists>c. rank_change (as_dict (dict_keys corpus) (ranks corpus d j))
                     (as_dict (dict_keys corpus) (ranks corpus d (Suc j))) p = Inr c \<and>
                 c > 1 / 1000"
        using big by (simp add: rank_change_ranks [OF p])
      with p after [of j] after [of "Suc j"]
      show "\<exists>a b. prob_dis_after corpus d j = Inr a \<and>
                  prob_dis_after corpus d (Suc j) = Inr b \<and>
                  (\<exists>p \<in> set (dict_keys corpus).
                     \<exists>c. rank_change a b p = Inr c \<and> c > 1 / 1000)"
        by blast
    qed
  qed
qed

theorem iterate_pagerank_terminates_witness:
  "\<exists>dist. iterate_pagerank [(''A'', {|''B''|}), (''B'', {|''C''|}), (''C'', {||})] (85 / 100)
            = Some (Inr dist)"
proof -
  have c: "[(''A'', {|''B''|}), (''B'', {|''C''|}), (''C'', {||})] \<noteq> []"
    "distinct (dict_keys [(''A'', {|''B''|}), (''B'', {|''C''|}), (''C'', {||})])"
    by (simp_all add: dict_keys_def)
  have d: "(0::real) < 85 / 100" "(85 / 100 :: real) < 1"
    by simp_all
  from iterate_pagerank_terminates [OF c d] show ?thesis by blast
qed

section \<open>The single page under sampling, and the keys of every result\<close>

lemma count_list_all_same: "set xs \<subseteq> {a} \<Longrightarrow> count_list xs a = length xs"
  by (induction xs) auto

lemma sample_pagerank_single_page:
  assumes "random_ok R" and "0 < d" and "d < 1" and "1 \<le> n"
  shows "sample_pagerank R [(''A'', {||})] d n g = Inr [(''A'', 1)]"
proof -
  have c: "[(''A'', {||})] \<noteq> ([] :: corpus)" "distinct (dict_keys [(''A'', {||} :: page fset)])"
    by (simp_all add: dict_keys_def)
  from sample_pagerank_run [OF assms(1) c assms(2-4), of g] obtain visits g' where
    v: "int (length visits) = n" "set visits \<subseteq> set (dict_keys [(''A'', {||} :: page fset)])"
       "sample_pagerank R [(''A'', {||})] d n g =
          Inr (map (\<lambda>key. (key, real (count_list visits key) / real_of_int n))
                 (dict_keys [(''A'', {||} :: page fset)]))"
    by blast
  have "set visits \<subseteq> {''A''}" using v(2) by (simp add: dict_keys_def)
  then have "count_list visits ''A'' = length visits" by (rule count_list_all_same)
  then have "real (count_list visits ''A'') / real_of_int n = 1"
    using v(1) assms(4) by auto
  then show ?thesis using v(3) by (simp add: dict_keys_def)
qed

text \<open>
  Claim C10. On a non-empty corpus, with a damping factor strictly between 0 and 1, each of
  the three functions returns a dict whose keys are exactly the keys of the corpus (in the
  same order): the transition model for any page of the corpus, the sampling estimator for
  any well-behaved random source and \<open>n \<ge> 1\<close>, and the iterative estimator.
\<close>

theorem distribution_keys:
  assumes "corpus \<noteq> []" and "distinct (dict_keys corpus)" and "0 < d" and "d < 1"
  shows "(\<forall>page \<in> set (dict_keys corpus).
            \<exists>dist. transition_model corpus page d = Inr dist \<and>
                   dict_keys dist = dict_keys corpus) \<and>
         (random_ok R \<and> 1 \<le> n \<longrightarrow>
            (\<exists>dist. sample_pagerank R corpus d n g = Inr dist \<and>
                    dict_keys dist = dict_keys corpus)) \<and>
         (\<exists>dist. iterate_pagerank corpus d = Some (Inr dist) \<and>
                 dict_keys dist = dict_keys corpus)"
proof (intro conjI ballI impI)
  fix page assume "page \<in> set (dict_keys corpus)"
  then obtain pages where "getitem corpus page = Inr pages"
    using getitem_in_keys by blast
  then show "\<exists>dist. transition_model corpus page d = Inr dist \<and>
                    dict_keys dist = dict_keys corpus"
    using assms(2) by (simp add: transition_model_pure)
next
  assume "random_ok R \<and> 1 \<le> n"
  then have R: "random_ok R" and n: "1 \<le> n" by simp_all
  from sample_pagerank_run [OF R assms n, of g]
  show "\<exists>dist. sample_pagerank R corpus d n g = Inr dist \<and>
               dict_keys dist = dict_keys corpus"
    by auto
next
  have d0: "0 \<le> d" using assms(3) by simp
  from iterate_pagerank_result [OF assms(2) d0 assms(4)]
  show "\<exists>dist. iterate_pagerank corpus d = Some (Inr dist) \<and>
               dict_keys dist = dict_keys corpus"
    by auto
qed

theorem distribution_keys_witness:
  "(\<exists>dist. transition_model [(''A'', {|''B''|}), (''B'', {||})] ''B'' (1 / 2) = Inr dist \<and>
           dict_keys dist = [''A'', ''B'']) \<and>
   (\<exists>dist. sample_pagerank first_source [(''A'', {|''B''|}), (''B'', {||})] (1 / 2) 2 () = Inr dist \<and>
           dict_keys dist = [''A'', ''B'']) \<and>
   (\<exists>dist. iterate_pagerank [(''A'', {|''B''|}), (''B'', {||})] (1 / 2) = Some (Inr dist) \<and>
           dict_keys dist = [''A'', ''B''])"
proof -
  have c: "[(''A'', {|''B''|}), (''B'', {||})] \<noteq> []"
    "distinct (dict_keys [(''A'', {|''B''|}), (''B'', {||})])"
    by (simp_all add: dict_keys_def)
  have d: "(0::real) < 1 / 2" "(1 / 2 :: real) < 1"
    by simp_all
  have k: "dict_keys [(''A'', {|''B''|}), (''B'', {||})] = [''A'', ''B'']"
    by (simp add: dict_keys_def)
  from distribution_keys [OF c d, of first_source 2 "()"] first_source_ok
  show ?thesis unfolding k by simp
qed

section \<open>Without dangling pages a pass keeps the total rank\<close>

lemma links_of_in_corpus:
  assumes "distinct (dict_keys corpus)" and "i \<in> set (dict_keys corpus)"
  shows "(i, links_of corpus i) \<in> set corpus"
  using assms getitem_corpus [OF assms(2)] by (simp add: getitem_Inr_iff)

lemma link_weight_sum_eq:
  assumes "links_of corpus i \<noteq> {||}" and "fset (links_of corpus i) \<subseteq> S" and "finite S"
  shows "(\<Sum>p \<in> S. link_weight corpus p i) = 1"
proof -
  let ?L = "links_of corpus i"
  have inter: "S \<inter> fset ?L = fset ?L" using assms(2) by auto
  have "(\<Sum>p \<in> S. link_weight corpus p i) = (\<Sum>p \<in> S \<inter> fset ?L. 1 / real (fcard ?L))"
    unfolding link_weight_def by (rule sum.inter_restrict [symmetric]) (rule assms(3))
  also have "\<dots> = real (fcard ?L) / real (fcard ?L)"
    by (simp add: inter fcard.rep_eq)
  also have "\<dots> = 1" using assms(1) by simp
  finally show ?thesis .
qed

lemma rank_update_sum:
  assumes "corpus \<noteq> []" and "distinct (dict_keys corpus)" and "links_in_corpus corpus"
    and "no_self_links corpus" and "no_dangling corpus"
  shows "(\<Sum>p \<in> set (dict_keys corpus). rank_update corpus d x p)
           = (1 - d) + d * (\<Sum>i \<in> set (dict_keys corpus). x i)"
proof -
  let ?S = "set (dict_keys corpus)"
  let ?N = "length (dict_keys corpus)"
  have N: "card ?S = ?N" using assms(2) by (rule distinct_card)
  have Npos: "0 < ?N" using assms(1) by (simp add: dict_keys_def)
  have links: "links_of corpus i \<noteq> {||}" "fset (links_of corpus i) \<subseteq> ?S" "i |\<notin>| links_of corpus i"
    if "i \<in> ?S" for i
    using links_of_in_corpus [OF assms(2) that] assms(3-5)
    by (auto simp: links_in_corpus_def no_self_links_def no_dangling_def)
  have c: "contrib corpus x p i = link_weight corpus p i * x i" if "i \<in> ?S" for p i
    using links(1) [OF that] by (simp add: contrib_def link_weight_def)
  have others: "(\<Sum>i \<in> ?S - {p}. contrib corpus x p i) = (\<Sum>i \<in> ?S. link_weight corpus p i * x i)"
    if p: "p \<in> ?S" for p
  proof -
    have "link_weight corpus p p = 0" using links(3) [OF p] by (simp add: link_weight_def)
    then have "(\<Sum>i \<in> ?S. link_weight corpus p i * x i)
             = (\<Sum>i \<in> ?S - {p}. link_weight corpus p i * x i)"
      using p by (simp add: sum.remove [of ?S p])
    also have "\<dots> = (\<Sum>i \<in> ?S - {p}. contrib corpus x p i)"
      by (rule sum.cong) (simp_all add: c)
    finally show ?thesis by simp
  qed
  have "(\<Sum>p \<in> ?S. rank_update corpus d x p)
      = (\<Sum>p \<in> ?S. (1 - d) / real ?N + d * (\<Sum>i \<in> ?S. link_weight corpus p i * x i))"
    by (rule sum.cong) (simp_all add: rank_update_def others)
  also have "\<dots> = (\<Sum>p \<in> ?S. (1 - d) / real ?N)
                  + d * (\<Sum>p \<in> ?S. \<Sum>i \<in> ?S. link_weight corpus p i * x i)"
    by (simp add: sum.distrib sum_distrib_left)
  also have "(\<Sum>p \<in> ?S. (1 - d) / real ?N) = 1 - d"
    using N Npos by simp
  also have "(\<Sum>p \<in> ?S. \<Sum>i \<in> ?S. link_weight corpus p i * x i)
           = (\<Sum>i \<in> ?S. \<Sum>p \<in> ?S. link_weight corpus p i * x i)"
    by (rule sum.swap)
  also have "\<dots> = (\<Sum>i \<in> ?S. (\<Sum>p \<in> ?S. link_weight corpus p i) * x i)"
    by (simp add: sum_distrib_right)
  also have "\<dots> = (\<Sum>i \<in> ?S. x i)"
    by (rule sum.cong) (simp_all add: link_weight_sum_eq links)
  finally show ?thesis .
qed

lemma ranks_sum:
  assumes "corpus \<noteq> []" and "distinct (dict_keys corpus)" and "links_in_corpus corpus"
    and "no_self_links corpus" and "no_dangling corpus"
  shows "(\<Sum>p \<in> set (dict_keys corpus). ranks corpus d k p) = 1"
proof (induction k)
  case 0
  have "card (set (dict_keys corpus)) = length (dict_keys corpus)"
    using assms(2) by (rule distinct_card)
  moreover have "0 < length (dict_keys corpus)" using assms(1) by (simp add: dict_keys_def)
  ultimately show ?case by (simp add: ranks_def)
next
  case (Suc k)
  then show ?case by (simp add: ranks_Suc rank_update_sum [OF assms])
qed

lemma sum_list_as_dict:
  "distinct pages \<Longrightarrow> sum_list (map snd (as_dict pages x)) = (\<Sum>p \<in> set pages. x p)"
  by (simp add: as_dict_def comp_def sum_list_distinct_conv_sum_set)

text \<open>
  The total rank is kept where no dangling page is involved: on a corpus as \<^verbatim>\<open>crawl\<close>
  builds it in which every page has a link, the values returned by the iterative
  estimator sum to 1.
\<close>

lemma iterate_pagerank_sum_without_dangling:
  assumes "corpus \<noteq> []" and "distinct (dict_keys corpus)" and "links_in_corpus corpus"
    and "no_self_links corpus" and "no_dangling corpus"
    and "0 < d" and "d < 1"
  shows "\<exists>dist. iterate_pagerank corpus d = Some (Inr dist) \<and> sum_list (map snd dist) = 1"
proof -
  have d0: "0 \<le> d" using assms(6) by simp
  from iterate_pagerank_result [OF assms(2) d0 assms(7)] obtain k where
    "iterate_pagerank corpus d
       = Some (Inr (as_dict (dict_keys corpus) (ranks corpus d (Suc k))))"
    by blast
  moreover have "sum_list (map snd (as_dict (dict_keys corpus) (ranks corpus d (Suc k)))) = 1"
    using ranks_sum [OF assms(1-5)] by (simp add: sum_list_as_dict [OF assms(2)])
  ultimately show ?thesis by blast
qed

end
